theory Spec2Isabelle
  imports Main "HOL-Library.Word"
begin

section \<open>Access hashes as byte strings\<close>

text \<open>
  The storage keeps a peer's access hash (an arbitrary-precision integer of the
  big-integer package) as a blob: the base-256 digits of the absolute value, most
  significant first, followed by one byte for the sign.
\<close>

type_synonym buffer = "8 word list"

record base_array =
  digits_value :: "nat list"
  isNegative :: bool

text \<open>
  The digit loop of the big-integer package's \<open>toArray\<close>, for a radix of at least 2
  and a non-negative operand: while the rest is not below the radix, push the remainder
  and keep the quotient; then push the rest and reverse.
\<close>

function toBase_loop :: "nat \<Rightarrow> nat \<Rightarrow> nat list \<Rightarrow> nat list" where
  "toBase_loop base left out =
     (if 2 \<le> base \<and> base \<le> left
      then toBase_loop base (left div base) (out @ [left mod base])
      else rev (out @ [left]))"
  by pat_completeness auto
termination
  by (relation "measure (\<lambda>(base, left, out). left)") auto

declare toBase_loop.simps [simp del]

definition toArray :: "int \<Rightarrow> nat \<Rightarrow> base_array" where
  "toArray n base =
     \<lparr>digits_value = toBase_loop base (nat \<bar>n\<bar>) [], isNegative = (n < 0)\<rparr>"

definition serializeAccessHash :: "int \<Rightarrow> buffer" where
  "serializeAccessHash hash =
     (let arr = toArray hash 256;
          pushed = digits_value arr @ [if isNegative arr then 1 else 0]
      in map of_nat pushed)"

text \<open>
  \<open>parseBaseFromArray\<close> of the same package walks the digits from the last one to
  the first, adding each digit times the running power of the radix.
\<close>

fun parseBase_loop :: "nat list \<Rightarrow> nat \<Rightarrow> nat \<Rightarrow> nat \<Rightarrow> nat" where
  "parseBase_loop [] base val pow = val"
| "parseBase_loop (d # ds) base val pow = parseBase_loop ds base (val + d * pow) (pow * base)"

definition fromArray :: "nat list \<Rightarrow> nat \<Rightarrow> bool \<Rightarrow> int" where
  "fromArray digits base neg =
     (let val = int (parseBase_loop (rev digits) base 0 1)
      in if neg then - val else val)"

text \<open>
  \<open>arr.slice(0, -1)\<close> is all but the last element; \<open>arr[arr.length - 1]\<close> is the
  last element, or \<open>undefined\<close> (falsy) on an empty buffer; a number is truthy when
  it is not zero.
\<close>

definition parseAccessHash :: "buffer \<Rightarrow> int" where
  "parseAccessHash hash =
     (let arr = map unat hash
      in fromArray (butlast arr) 256 (case arr of [] \<Rightarrow> False | _ \<Rightarrow> last arr \<noteq> 0))"

section \<open>The SQLite storage\<close>

text \<open>
  The storage class of \<open>packages/sqlite/index.ts\<close>. A leading underscore of a
  source name is dropped (\<open>_runMany\<close> is \<open>runMany\<close>). What the class takes from
  the core package and from the platform is a parameter of the model: the constant
  \<open>MAX_CHANNEL_ID\<close>, the object writer and reader, the clock (\<open>Date.now()\<close>, in
  milliseconds) and whether the throttled flush fires during a call.
\<close>

datatype json =
  JNull | JNum int | JBool bool | JStr string | JArr "json list" | JObj "(string \<times> json) list"

datatype sql_value = SqlNull | SqlInteger int | SqlText string | SqlBlob buffer

datatype error = InvalidPeerType string | ReadError | SqliteConstraint

datatype input_peer =
  InputPeerUser int int | InputPeerChat int | InputPeerChannel int int

record sqlite_entity =
  ent_id :: int
  ent_hash :: buffer
  ent_type :: string
  ent_username :: "string option"
  ent_phone :: "string option"
  ent_updated :: int
  ent_full :: buffer

record 'o peer_info =
  peer_id :: int
  peer_accessHash :: int
  peer_type :: string
  peer_username :: "string option"
  peer_phone :: "string option"
  peer_full :: 'o

record 'o core =
  MAX_CHANNEL_ID :: int
  serializeObject :: "'o \<Rightarrow> buffer"
  readObject :: "buffer \<Rightarrow> 'o option"

record 'o cache_item =
  item_peer :: input_peer
  item_full :: 'o

text \<open>
  The four tables of \<open>SCHEMA\<close>, each keyed by its primary key. The \<open>kv\<close> table
  holds the text \<open>JSON.stringify\<close> gives and \<open>JSON.parse\<close> reads back; it is
  modelled by the JSON value itself. The rows of \<open>entities\<close> are kept in the order of
  their integer primary key, which is the order SQLite visits them in.
\<close>

record database =
  kv :: "string \<rightharpoonup> json"
  auth_keys :: "int \<rightharpoonup> buffer"
  pts :: "int \<rightharpoonup> int"
  entities :: "sqlite_entity list"

text \<open>A prepared statement of \<open>STATEMENTS\<close> together with the parameters bound to it.\<close>

datatype statement =
    SetKv string json
  | DelKv string
  | SetAuth int buffer
  | DelAuth int
  | SetPts int int
  | UpsertEnt sqlite_entity

record cached_update =
  upd_username :: "string option"
  upd_phone :: "string option"
  upd_updated :: int
  upd_full :: buffer
  upd_id :: int

text \<open>
  \<open>LruMap\<close> of the core package, whose code is not among the sources: taken to be a
  map of bounded size that forgets the entry used longest ago, its entries listed most
  recently used first. Nothing proved below depends on which entry it forgets.
\<close>

record 'o lru_map =
  capacity :: nat
  entries :: "(int \<times> 'o cache_item) list"

record 'o storage =
  db :: database
  pending :: "statement list"
  pendingUnimportant :: "(int \<times> cached_update) list"
  cache :: "'o lru_map option"

definition CURRENT_VERSION :: int where
  "CURRENT_VERSION = 1"


subsection \<open>JavaScript objects keyed by numbers\<close>


definition is_array_index :: "int \<Rightarrow> bool" where
  "is_array_index k = (0 \<le> k \<and> k < 4294967295)"

definition object_entries :: "(int \<times> 'v) list \<Rightarrow> (int \<times> 'v) list" where
  "object_entries obj =
     sort_key fst (filter (\<lambda>e. is_array_index (fst e)) obj)
       @ filter (\<lambda>e. \<not> is_array_index (fst e)) obj"

definition object_values :: "(int \<times> 'v) list \<Rightarrow> 'v list" where
  "object_values obj = map snd (object_entries obj)"

subsection \<open>The cache\<close>





subsection \<open>Input peers\<close>

text \<open>
  \<open>getInputPeer\<close> takes a database row, whose access hash is the serialized column,
  or a peer given to \<open>updatePeers\<close>, which carries the access hash itself. Any type
  other than the three known ones throws.
\<close>

definition getInputPeer_row :: "'o core \<Rightarrow> sqlite_entity \<Rightarrow> error + input_peer" where
  "getInputPeer_row c row =
     (if ent_type row = ''user''
        then Inr (InputPeerUser (ent_id row) (parseAccessHash (ent_hash row)))
      else if ent_type row = ''chat''
        then Inr (InputPeerChat (- ent_id row))
      else if ent_type row = ''channel''
        then Inr (InputPeerChannel (MAX_CHANNEL_ID c - ent_id row) (parseAccessHash (ent_hash row)))
      else Inl (InvalidPeerType (ent_type row)))"

definition getInputPeer_info :: "'o core \<Rightarrow> 'o peer_info \<Rightarrow> error + input_peer" where
  "getInputPeer_info c p =
     (if peer_type p = ''user''
        then Inr (InputPeerUser (peer_id p) (peer_accessHash p))
      else if peer_type p = ''chat''
        then Inr (InputPeerChat (- peer_id p))
      else if peer_type p = ''channel''
        then Inr (InputPeerChannel (MAX_CHANNEL_ID c - peer_id p) (peer_accessHash p))
      else Inl (InvalidPeerType (peer_type p)))"

subsection \<open>Statements\<close>

text \<open>
  \<open>insert or replace\<close> into \<open>entities\<close> first deletes the rows that clash with the
  new one on the primary key or on the unique index over \<open>phone\<close> (where NULLs never
  clash).
\<close>

definition clashes :: "sqlite_entity \<Rightarrow> sqlite_entity \<Rightarrow> bool" where
  "clashes row r =
     (ent_id r = ent_id row \<or> (ent_phone row \<noteq> None \<and> ent_phone r = ent_phone row))"

definition upsertEnt :: "sqlite_entity \<Rightarrow> sqlite_entity list \<Rightarrow> sqlite_entity list" where
  "upsertEnt row rows = insort_key ent_id row (filter (\<lambda>r. \<not> clashes row r) rows)"

fun run_statement :: "statement \<Rightarrow> database \<Rightarrow> database" where
  "run_statement (SetKv k v) d = d\<lparr>kv := (kv d)(k \<mapsto> v)\<rparr>"
| "run_statement (DelKv k) d = d\<lparr>kv := (kv d)(k := None)\<rparr>"
| "run_statement (SetAuth dc key) d = d\<lparr>auth_keys := (auth_keys d)(dc \<mapsto> key)\<rparr>"
| "run_statement (DelAuth dc) d = d\<lparr>auth_keys := (auth_keys d)(dc := None)\<rparr>"
| "run_statement (SetPts cid v) d = d\<lparr>pts := (pts d)(cid \<mapsto> v)\<rparr>"
| "run_statement (UpsertEnt row) d = d\<lparr>entities := upsertEnt row (entities d)\<rparr>"


text \<open>
  \<open>updateCachedEnt\<close> is a plain \<open>update\<close>: when it would give the row a phone
  that another row has, the unique index refuses it and the statement throws.
\<close>

definition updateCachedEnt :: "cached_update \<Rightarrow> sqlite_entity list \<Rightarrow> error + sqlite_entity list" where
  "updateCachedEnt u rows =
     (if list_ex (\<lambda>r. ent_id r = upd_id u) rows \<and> upd_phone u \<noteq> None
         \<and> list_ex (\<lambda>r. ent_id r \<noteq> upd_id u \<and> ent_phone r = upd_phone u) rows
      then Inl SqliteConstraint
      else Inr (map (\<lambda>r. if ent_id r = upd_id u
                          then r\<lparr>ent_username := upd_username u, ent_phone := upd_phone u,
                                 ent_updated := upd_updated u, ent_full := upd_full u\<rparr>
                          else r) rows))"

fun updateMany_loop :: "cached_update list \<Rightarrow> sqlite_entity list \<Rightarrow> error + sqlite_entity list" where
  "updateMany_loop [] rows = Inr rows"
| "updateMany_loop (u # us) rows =
     (case updateCachedEnt u rows of
        Inl e \<Rightarrow> Inl e
      | Inr rows' \<Rightarrow> updateMany_loop us rows')"

text \<open>\<open>_updateManyPeers\<close>: one transaction; a statement that throws rolls it back.\<close>

definition updateManyPeers :: "cached_update list \<Rightarrow> database \<Rightarrow> error + database" where
  "updateManyPeers updates d =
     (case updateMany_loop updates (entities d) of
        Inl e \<Rightarrow> Inl e
      | Inr rows \<Rightarrow> Inr (d\<lparr>entities := rows\<rparr>))"

subsection \<open>The key-value table\<close>

definition getFromKv :: "string \<Rightarrow> 'o storage \<Rightarrow> json" where
  "getFromKv key s = (case kv (db s) key of None \<Rightarrow> JNull | Some v \<Rightarrow> v)"

definition setToKv :: "string \<Rightarrow> json \<Rightarrow> bool \<Rightarrow> 'o storage \<Rightarrow> 'o storage" where
  "setToKv key v now s =
     (let query = (if v = JNull then DelKv key else SetKv key v)
      in if now then s\<lparr>db := run_statement query (db s)\<rparr>
         else s\<lparr>pending := pending s @ [query]\<rparr>)"

subsection \<open>Opening, saving and resetting\<close>

definition empty_database :: database where
  "empty_database = \<lparr>kv = Map.empty, auth_keys = Map.empty, pts = Map.empty, entities = []\<rparr>"

text \<open>
  The constructor followed by \<open>load\<close> on a file that has no tables yet: the schema
  is created and the version is written at once. A cache size of 0 disables the cache.
\<close>

definition load_new :: "nat \<Rightarrow> 'o storage" where
  "load_new cacheSize =
     setToKv ''ver'' (JNum CURRENT_VERSION) True
       \<lparr>db = empty_database, pending = [], pendingUnimportant = [],
        cache = (if cacheSize \<noteq> 0 then Some \<lparr>capacity = cacheSize, entries = []\<rparr> else None)\<rparr>"

text \<open>
  The body that the constructor wraps in \<open>throttle\<close>: it writes the updates kept for
  cached entities, and forgets them once written.
\<close>

definition saveUnimportant :: "'o storage \<Rightarrow> error option \<times> 'o storage" where
  "saveUnimportant s =
     (let items = object_values (pendingUnimportant s)
      in if items = [] then (None, s)
         else (case updateManyPeers items (db s) of
                 Inl e \<Rightarrow> (Some e, s)
               | Inr d \<Rightarrow> (None, s\<lparr>db := d, pendingUnimportant := []\<rparr>)))"


text \<open>
  The comparison \<open>key <> 'ver'\<close> of \<open>RESET\<close>: SQLite compares values of different
  storage classes as different, and a comparison with NULL is not true.
\<close>

fun sql_ne :: "sql_value \<Rightarrow> sql_value \<Rightarrow> bool" where
  "sql_ne SqlNull b = False"
| "sql_ne a SqlNull = False"
| "sql_ne a b = (a \<noteq> b)"

definition exec_RESET :: "database \<Rightarrow> database" where
  "exec_RESET d =
     d\<lparr>kv := Map.empty,
       auth_keys := (\<lambda>dc. case auth_keys d dc of
                            None \<Rightarrow> None
                          | Some key \<Rightarrow>
                              if sql_ne (SqlBlob key) (SqlText ''ver'') then None else Some key),
       pts := Map.empty,
       entities := []\<rparr>"

definition reset :: "'o storage \<Rightarrow> 'o storage" where
  "reset s = s\<lparr>db := exec_RESET (db s)\<rparr>"

subsection \<open>Getters and setters\<close>


definition getDefaultDc :: "'o storage \<Rightarrow> json" where
  "getDefaultDc s = getFromKv ''def_dc'' s"

definition getAuthKeyFor :: "int \<Rightarrow> 'o storage \<Rightarrow> buffer option" where
  "getAuthKeyFor dcId s = auth_keys (db s) dcId"


definition getSelf :: "'o storage \<Rightarrow> json" where
  "getSelf s = getFromKv ''self'' s"









subsection \<open>Peers\<close>















subsection \<open>Histories of calls\<close>










section \<open>The update manager\<close>

text \<open>
  Modelled from the spec: the update manager is not among the sources. A stream (the
  global one, or one per channel) holds its counter \<open>local_pts\<close>; the counter handed to
  the storage and the updates handed to the update callback are kept beside it.
  Counters are natural numbers: the spec says nothing of an overflow.
\<close>

datatype phase = Normal | GapDetected | Recovering





section \<open>The session\<close>

text \<open>
  Modelled from the spec: the session is not among the sources. Of its state, the last
  message id assigned and the sequence-number counter. Both are natural numbers: the
  spec says nothing of an overflow.
\<close>

record session =
  last_msg_id :: nat
  seq_counter :: nat

text \<open>Modelled from the spec: what a send assigns to a message.\<close>

record header =
  msg_id :: nat
  seqno :: nat
  is_content :: bool

text \<open>
  Modelled from the spec: the message id of section 4.4. \<open>clock_id\<close> is the id the
  wall clock gives at the moment of the send (the time, scaled). When it is not above
  the last id assigned, the last id is incremented instead; the step is 4, which leaves
  the two lowest bits as they were.
\<close>

definition next_msg_id :: "nat \<Rightarrow> session \<Rightarrow> nat" where
  "next_msg_id clock_id s =
     (if last_msg_id s < clock_id then clock_id else last_msg_id s + 4)"

text \<open>
  Modelled from the spec: the sequence number of section 4.4. A content message takes
  the next odd value and moves the counter on by 2; a service message or an
  acknowledgment takes the current value and leaves the counter.
\<close>

definition next_seqno :: "bool \<Rightarrow> session \<Rightarrow> nat \<times> nat" where
  "next_seqno content s =
     (if content then (seq_counter s + 1, seq_counter s + 2)
      else (seq_counter s, seq_counter s))"

text \<open>Modelled from the spec: one send assigns both numbers and records them.\<close>

definition send :: "nat \<Rightarrow> bool \<Rightarrow> session \<Rightarrow> header \<times> session" where
  "send clock_id content s =
     (let m = next_msg_id clock_id s; (q, counter) = next_seqno content s
      in (\<lparr>msg_id = m, seqno = q, is_content = content\<rparr>,
          \<lparr>last_msg_id = m, seq_counter = counter\<rparr>))"

text \<open>
  Modelled from the spec: a sequence of sends on one session, each with the reading of
  the clock at its moment; the headers assigned, in the order of the sends.
\<close>

fun send_all :: "(nat \<times> bool) list \<Rightarrow> session \<Rightarrow> header list" where
  "send_all [] s = []"
| "send_all ((clock_id, content) # rest) s =
     (case send clock_id content s of (h, s') \<Rightarrow> h # send_all rest s')"

text \<open>Modelled from the spec: the number of content messages among the sends.\<close>

definition content_count :: "(nat \<times> bool) list \<Rightarrow> nat" where
  "content_count sends = length (filter snd sends)"

section \<open>The shared secret\<close>

text \<open>
  Modelled from the spec: the crypto engine is not among the sources. Its two errors.
\<close>

datatype crypto_error = IntegrityMismatch | InvalidDhParameters

text \<open>Modelled from the spec: primality, decided by trial division.\<close>

definition is_prime :: "nat \<Rightarrow> bool" where
  "is_prime n = (1 < n \<and> list_all (\<lambda>d. \<not> d dvd n) [2..<n])"

text \<open>Modelled from the spec: a safe prime is a prime \<open>p\<close> with \<open>(p - 1) / 2\<close> prime.\<close>

definition is_safe_prime :: "nat \<Rightarrow> bool" where
  "is_safe_prime p = (is_prime p \<and> is_prime ((p - 1) div 2))"

text \<open>Modelled from the spec: the number of binary digits of a number.\<close>

fun bit_length :: "nat \<Rightarrow> nat" where
  "bit_length n = (if n = 0 then 0 else Suc (bit_length (n div 2)))"

declare bit_length.simps [simp del]

text \<open>
  Modelled from the spec: \<open>computeSharedSecret\<close> of section 4.1, with the expected
  bit length of the prime as a parameter (the spec gives no number). It checks the
  prime and the peer's power, and only then raises the power to our exponent.
\<close>

definition computeSharedSecret :: "nat \<Rightarrow> nat \<Rightarrow> nat \<Rightarrow> nat \<Rightarrow> nat \<Rightarrow> crypto_error + nat" where
  "computeSharedSecret bits g p ourExponent theirPower =
     (if \<not> (is_safe_prime p \<and> bit_length p = bits) then Inl InvalidDhParameters
      else if \<not> (1 < theirPower \<and> theirPower < p - 1) then Inl InvalidDhParameters
      else Inr (theirPower ^ ourExponent mod p))"

text \<open>
  Modelled from the spec: its words, to compare the checks above with. A prime has no
  divisor but 1 and itself.
\<close>

definition prime_spec :: "nat \<Rightarrow> bool" where
  "prime_spec n = (1 < n \<and> (\<forall>d. d dvd n \<longrightarrow> d = 1 \<or> d = n))"

text \<open>
  Modelled from the spec: a safe prime of the expected bit length; a number has
  \<open>bits\<close> binary digits when it lies from \<open>2 ^ (bits - 1)\<close> up to, but below,
  \<open>2 ^ bits\<close>.
\<close>

definition safe_prime_spec :: "nat \<Rightarrow> nat \<Rightarrow> bool" where
  "safe_prime_spec bits p =
     (prime_spec p \<and> prime_spec ((p - 1) div 2) \<and> 0 < bits \<and> 2 ^ (bits - 1) \<le> p \<and> p < 2 ^ bits)"

section \<open>Auxiliary notions for the proofs\<close>


text \<open>A channel has no counter, neither in the table nor on its way there.\<close>

definition unset :: "int \<Rightarrow> 'o storage \<Rightarrow> bool" where
  "unset cid s = (pts (db s) cid = None \<and> (\<forall>v. SetPts cid v \<notin> set (pending s)))"



definition demo_row :: sqlite_entity where
  "demo_row = \<lparr>ent_id = 7, ent_hash = [5, 0], ent_type = ''user'', ent_username = Some ''alice'',
     ent_phone = None, ent_updated = 1000, ent_full = [1, 2]\<rparr>"

definition demo_storage :: "buffer storage" where
  "demo_storage =
     (load_new 100)\<lparr>db := (db (load_new 100 :: buffer storage))
                            \<lparr>entities := [demo_row], auth_keys := [2 \<mapsto> [9, 9]]\<rparr>\<rparr>"

section \<open>Properties\<close>

lemma toBase_loop_step:
  "2 \<le> base \<Longrightarrow> base \<le> left \<Longrightarrow>
   toBase_loop base left out = toBase_loop base (left div base) (out @ [left mod base])"
  by (subst toBase_loop.simps) simp

lemma toBase_loop_stop:
  "\<not> (2 \<le> base \<and> base \<le> left) \<Longrightarrow> toBase_loop base left out = rev (out @ [left])"
  by (subst toBase_loop.simps) (simp only: if_False)

lemma toBase_loop_bounded:
  "2 \<le> base \<Longrightarrow> \<forall>d \<in> set out. d < base \<Longrightarrow> \<forall>d \<in> set (toBase_loop base left out). d < base"
proof (induction base left out rule: toBase_loop.induct)
  case (1 base left out)
  show ?case
  proof (cases "base \<le> left")
    case True
    have digits: "\<forall>d \<in> set (out @ [left mod base]). d < base"
      using "1.prems" by auto
    have "\<forall>d \<in> set (toBase_loop base (left div base) (out @ [left mod base])). d < base"
      using "1.prems"(1) True digits by (intro "1.IH") simp_all
    then show ?thesis
      by (simp only: toBase_loop_step [OF "1.prems"(1) True])
  next
    case False
    then have last: "left < base" by simp
    have "toBase_loop base left out = rev (out @ [left])"
      using False by (intro toBase_loop_stop) simp
    then show ?thesis using "1.prems"(2) last by auto
  qed
qed

lemma parseBase_loop_append:
  "parseBase_loop (xs @ ys) base val pow =
     parseBase_loop ys base (parseBase_loop xs base val pow) (pow * base ^ length xs)"
  by (induction xs arbitrary: val pow) (simp_all add: mult.assoc)

lemma bytes_of_digits:
  "\<forall>d \<in> set xs. d < 256 \<Longrightarrow> map unat (map of_nat xs :: buffer) = xs"
  by (induction xs) (simp_all add: unat_of_nat)

lemma toBase_loop_value:
  "2 \<le> base \<Longrightarrow>
   parseBase_loop (rev (toBase_loop base left out)) base 0 1 =
     parseBase_loop out base 0 1 + base ^ length out * left"
proof (induction base left out rule: toBase_loop.induct)
  case (1 base left out)
  show ?case
  proof (cases "base \<le> left")
    case True
    have "parseBase_loop (rev (toBase_loop base left out)) base 0 1 =
        parseBase_loop (rev (toBase_loop base (left div base) (out @ [left mod base]))) base 0 1"
      by (simp only: toBase_loop_step [OF "1.prems" True])
    also have "\<dots> = parseBase_loop (out @ [left mod base]) base 0 1
          + base ^ length (out @ [left mod base]) * (left div base)"
      using "1.prems" True by (intro "1.IH") simp_all
    also have "\<dots> = parseBase_loop out base 0 1 + base ^ length out * (left mod base)
          + base ^ length out * (base * (left div base))"
      by (simp add: parseBase_loop_append)
    also have "\<dots> = parseBase_loop out base 0 1 + base ^ length out * left"
      by (simp add: add.assoc flip: distrib_left)
    finally show ?thesis .
  next
    case False
    have "toBase_loop base left out = rev (out @ [left])"
      using False by (intro toBase_loop_stop) simp
    then show ?thesis by (simp add: parseBase_loop_append)
  qed
qed

lemma access_hash_round_trip: "parseAccessHash (serializeAccessHash h) = h"
proof -
  let ?ds = "toBase_loop 256 (nat \<bar>h\<bar>) []"
  let ?s = "if h < 0 then 1 else (0::nat)"
  have bound: "\<forall>d \<in> set ?ds. d < 256"
    using toBase_loop_bounded [of 256 "[]" "nat \<bar>h\<bar>"] by simp
  have "map unat (map of_nat (?ds @ [?s]) :: buffer) = ?ds @ [?s]"
    by (rule bytes_of_digits) (use bound in auto)
  then have arr: "map unat (serializeAccessHash h) = ?ds @ [?s]"
    by (simp add: serializeAccessHash_def toArray_def Let_def)
  have val: "parseBase_loop (rev ?ds) 256 0 1 = nat \<bar>h\<bar>"
    using toBase_loop_value [of 256 "nat \<bar>h\<bar>" "[]"] by simp
  have "parseAccessHash (serializeAccessHash h) = fromArray ?ds 256 (h < 0)"
    unfolding parseAccessHash_def Let_def arr
    by (simp add: list.case_eq_if)
  also have "\<dots> = h"
    unfolding fromArray_def Let_def val by simp
  finally show ?thesis .
qed

text \<open>
  C9. Access-hash serialization round trip: for every integer \<open>h\<close>, positive, zero or
  negative (so in particular for every 64-bit value), parsing the serialized hash gives
  \<open>h\<close> back.
\<close>

theorem parseAccessHash_serializeAccessHash:
  "parseAccessHash (serializeAccessHash h) = h"
  by (rule access_hash_round_trip)

theorem parseAccessHash_serializeAccessHash_witness:
  "parseAccessHash (serializeAccessHash (- 4660)) = - 4660
   \<and> parseAccessHash (serializeAccessHash 9223372036854775807) = 9223372036854775807"
  using parseAccessHash_serializeAccessHash [of "- 4660"]
    parseAccessHash_serializeAccessHash [of 9223372036854775807]
  by simp

subsection \<open>Saving and resetting\<close>






lemma saveUnimportant_cache: "cache (snd (saveUnimportant s)) = cache s"
  by (simp add: saveUnimportant_def Let_def split: sum.splits)







text \<open>
  C6. Explicit reset destroys all persisted auth keys: after \<open>reset()\<close>,
  \<open>getAuthKeyFor(dc)\<close> returns null for every dc id, whatever was stored before.
\<close>

theorem reset_destroys_auth_keys: "getAuthKeyFor dc (reset s) = None"
  by (simp add: getAuthKeyFor_def reset_def exec_RESET_def split: option.splits)

theorem reset_destroys_auth_keys_witness:
  "getAuthKeyFor 2 demo_storage = Some [9, 9] \<and> getAuthKeyFor 2 (reset demo_storage) = None"
proof -
  have "getAuthKeyFor 2 demo_storage = Some [9, 9]"
    by (simp add: getAuthKeyFor_def demo_storage_def)
  then show ?thesis
    using reset_destroys_auth_keys [of 2 demo_storage] by simp
qed



subsection \<open>Lookup by username\<close>

text \<open>
  The row that \<open>updatePeers\<close> queues for a peer gives the input peer the peer itself
  gives: a row written by the storage has a type \<open>getInputPeer\<close> accepts whenever the
  peer had one.
\<close>

lemma stored_row_input_peer:
  "getInputPeer_row c
     \<lparr>ent_id = peer_id p, ent_hash = serializeAccessHash (peer_accessHash p),
      ent_type = peer_type p, ent_username = peer_username p, ent_phone = peer_phone p,
      ent_updated = now, ent_full = serializeObject c (peer_full p)\<rparr>
   = getInputPeer_info c p"
  by (simp add: getInputPeer_row_def getInputPeer_info_def access_hash_round_trip)





subsection \<open>What a method leaves alone\<close>

















subsection \<open>The update state along a history\<close>














subsection \<open>Channel counters\<close>

lemma pts_run_statement:
  "pts (run_statement stmt d) cid =
     (case stmt of SetPts k v \<Rightarrow> if k = cid then Some v else pts d cid | _ \<Rightarrow> pts d cid)"
  by (cases stmt) auto






lemma unset_frame:
  "unset cid s \<Longrightarrow> pts (db s') = pts (db s) \<Longrightarrow> pending s' = pending s \<Longrightarrow> unset cid s'"
  by (simp add: unset_def)








subsection \<open>Update manager, session and shared secret\<close>




lemma send_last: "last_msg_id (snd (send clock_id content s)) = msg_id (fst (send clock_id content s))"
  by (simp add: send_def Let_def split: prod.splits)

lemma send_greater: "last_msg_id s < msg_id (fst (send clock_id content s))"
  by (simp add: send_def Let_def next_msg_id_def split: prod.splits)

lemma send_all_greater:
  "\<forall>h \<in> set (send_all sends s). last_msg_id s < msg_id h"
proof (induction sends arbitrary: s)
  case Nil
  show ?case by simp
next
  case (Cons x sends)
  obtain clock_id content where x: "x = (clock_id, content)" by (cases x)
  obtain h s' where snd: "send clock_id content s = (h, s')" by (cases "send clock_id content s")
  have h: "last_msg_id s < msg_id h" using send_greater [of s clock_id content] snd by simp
  have s': "last_msg_id s' = msg_id h" using send_last [of clock_id content s] snd by simp
  have "\<forall>k \<in> set (send_all sends s'). msg_id h < msg_id k"
    using Cons.IH [of s'] s' by simp
  then show ?case using h by (auto simp: x snd)
qed

lemma send_all_sorted: "sorted_wrt (<) (map msg_id (send_all sends s))"
proof (induction sends arbitrary: s)
  case Nil
  show ?case by simp
next
  case (Cons x sends)
  obtain clock_id content where x: "x = (clock_id, content)" by (cases x)
  obtain h s' where snd: "send clock_id content s = (h, s')" by (cases "send clock_id content s")
  have s': "last_msg_id s' = msg_id h" using send_last [of clock_id content s] snd by simp
  have "\<forall>k \<in> set (send_all sends s'). msg_id h < msg_id k"
    using send_all_greater [of sends s'] s' by simp
  then show ?case using Cons.IH [of s'] by (simp add: x snd)
qed

lemma send_all_length: "length (send_all sends s) = length sends"
  by (induction sends arbitrary: s) (auto split: prod.splits)

lemma send_all_seqno:
  "i < length sends \<Longrightarrow>
   seqno (send_all sends s ! i) =
     seq_counter s + 2 * content_count (take i sends) + (if snd (sends ! i) then 1 else 0)
   \<and> is_content (send_all sends s ! i) = snd (sends ! i)"
proof (induction sends arbitrary: s i)
  case Nil
  then show ?case by simp
next
  case (Cons x sends)
  obtain clock_id content where x: "x = (clock_id, content)" by (cases x)
  obtain h s' where snd: "send clock_id content s = (h, s')" by (cases "send clock_id content s")
  have h: "seqno h = seq_counter s + (if content then 1 else 0)" "is_content h = content"
    and s': "seq_counter s' = seq_counter s + (if content then 2 else 0)"
    using snd by (auto simp: send_def Let_def next_seqno_def split: if_splits)
  show ?case
  proof (cases i)
    case 0
    then show ?thesis using h by (simp add: x snd content_count_def)
  next
    case (Suc j)
    then have "j < length sends" using Cons.prems by simp
    from Cons.IH [OF this, of s'] show ?thesis
      using s' by (simp add: x snd Suc content_count_def)
  qed
qed

text \<open>
  C2. For every sequence of sends on one session, whatever the clock reads at each
  (also when it has not advanced, or has gone back): the message ids assigned are
  strictly increasing and above the last id assigned before; a content message takes
  the counter plus one and moves the counter on by 2, a service message or an
  acknowledgment takes the counter and leaves it; so each message gets the counter at
  the start plus twice the number of content messages sent before it, plus one when
  it is a content message itself, which from an even counter is odd exactly for the
  content messages.
\<close>

theorem send_all_msg_ids_seqnos:
  "sorted_wrt (<) (map msg_id (send_all sends s))
   \<and> (\<forall>h \<in> set (send_all sends s). last_msg_id s < msg_id h)
   \<and> next_seqno True s = (seq_counter s + 1, seq_counter s + 2)
   \<and> next_seqno False s = (seq_counter s, seq_counter s)
   \<and> (\<forall>i < length sends.
         seqno (send_all sends s ! i) =
           seq_counter s + 2 * content_count (take i sends) + (if snd (sends ! i) then 1 else 0))
   \<and> (even (seq_counter s) \<longrightarrow> (\<forall>h \<in> set (send_all sends s). odd (seqno h) = is_content h))"
proof -
  have parity: "odd (seqno h) = is_content h"
    if ev: "even (seq_counter s)" and h: "h \<in> set (send_all sends s)" for h
  proof -
    from h obtain i where i: "i < length sends" "h = send_all sends s ! i"
      by (auto simp: in_set_conv_nth send_all_length)
    show ?thesis
      using send_all_seqno [OF i(1), of s] ev by (simp add: i(2))
  qed
  show ?thesis
    using send_all_sorted [of sends s] send_all_greater [of sends s] parity
    by (simp add: send_all_seqno next_seqno_def)
qed

theorem send_all_msg_ids_seqnos_witness:
  "map msg_id (send_all [(100, True), (100, False), (50, True)] \<lparr>last_msg_id = 0, seq_counter = 0\<rparr>)
     = [100, 104, 108]
   \<and> map seqno (send_all [(100, True), (100, False), (50, True)] \<lparr>last_msg_id = 0, seq_counter = 0\<rparr>)
     = [1, 2, 3]
   \<and> sorted_wrt (<) (map msg_id
        (send_all [(100, True), (100, False), (50, True)] \<lparr>last_msg_id = 0, seq_counter = 0\<rparr>))
   \<and> even (seq_counter \<lparr>last_msg_id = 0, seq_counter = 0\<rparr>)"
  using send_all_msg_ids_seqnos
    [of "[(100, True), (100, False), (50, True)]" "\<lparr>last_msg_id = 0, seq_counter = 0\<rparr>"]
  by (simp add: send_def next_msg_id_def next_seqno_def Let_def)

lemma is_prime_iff: "is_prime n \<longleftrightarrow> prime_spec n"
proof
  assume p: "is_prime n"
  then have n: "1 < n" and nd: "\<forall>d. 2 \<le> d \<and> d < n \<longrightarrow> \<not> d dvd n"
    by (auto simp: is_prime_def list_all_iff)
  have "d = 1 \<or> d = n" if "d dvd n" for d
  proof -
    have "d \<le> n" using that n by (intro dvd_imp_le) simp_all
    moreover have "d \<noteq> 0" using that n by (metis dvd_0_left_iff not_less_zero)
    ultimately show ?thesis using nd that by (cases "d = 1"; cases "d = n") auto
  qed
  then show "prime_spec n" using n by (simp add: prime_spec_def)
next
  assume p: "prime_spec n"
  then have n: "1 < n" and d: "\<And>d. d dvd n \<Longrightarrow> d = 1 \<or> d = n"
    by (auto simp: prime_spec_def)
  have "\<not> d dvd n" if "2 \<le> d" "d < n" for d
    using d [of d] that by auto
  then show "is_prime n" using n by (auto simp: is_prime_def list_all_iff)
qed

lemma bit_length_zero: "bit_length 0 = 0"
  by (subst bit_length.simps) simp

lemma bit_length_pos: "0 < n \<Longrightarrow> bit_length n = Suc (bit_length (n div 2))"
  by (subst bit_length.simps) simp

lemma bit_length_bounds: "0 < n \<Longrightarrow> 2 ^ (bit_length n - 1) \<le> n \<and> n < 2 ^ bit_length n"
proof (induction n rule: bit_length.induct)
  case (1 n)
  have bl: "bit_length n = Suc (bit_length (n div 2))"
    using "1.prems" by (rule bit_length_pos)
  show ?case
  proof (cases "n div 2 = 0")
    case True
    then have "n = 1" using "1.prems" by presburger
    then show ?thesis using bl by (simp add: bit_length_zero)
  next
    case False
    then have ih: "2 ^ (bit_length (n div 2) - 1) \<le> n div 2 \<and> n div 2 < 2 ^ bit_length (n div 2)"
      using "1.IH" "1.prems" by simp
    have pos: "0 < bit_length (n div 2)"
      using False by (simp add: bit_length_pos)
    have "2 ^ (bit_length n - 1) = 2 * 2 ^ (bit_length (n div 2) - 1)"
      using pos by (simp add: bl flip: power_Suc)
    also have "\<dots> \<le> 2 * (n div 2)" using ih by simp
    also have "\<dots> \<le> n" by simp
    finally have lo: "2 ^ (bit_length n - 1) \<le> n" .
    have "n < 2 * (n div 2) + 2" by presburger
    also have "\<dots> \<le> 2 * 2 ^ bit_length (n div 2)" using ih by simp
    finally have "n < 2 ^ bit_length n" by (simp add: bl)
    then show ?thesis using lo by simp
  qed
qed

lemma bit_length_unique:
  assumes "0 < bits" "2 ^ (bits - 1) \<le> n" "n < 2 ^ bits"
  shows "bit_length n = bits"
proof -
  have n: "0 < n" using assms(2) by (metis gr0I not_le zero_less_numeral zero_less_power)
  note b = bit_length_bounds [OF n]
  have pos: "0 < bit_length n" using n by (simp add: bit_length_pos)
  have "(2::nat) ^ (bits - 1) < 2 ^ bit_length n"
    using assms(2) b by (meson le_less_trans)
  then have 1: "bits - 1 < bit_length n"
    by (simp only: power_strict_increasing_iff one_less_numeral_iff semiring_norm)
  have "(2::nat) ^ (bit_length n - 1) < 2 ^ bits"
    using assms(3) b by (meson le_less_trans)
  then have 2: "bit_length n - 1 < bits"
    by (simp only: power_strict_increasing_iff one_less_numeral_iff semiring_norm)
  show ?thesis using 1 2 pos assms(1) by simp
qed

lemma bit_length_iff:
  "1 < p \<Longrightarrow> bit_length p = bits \<longleftrightarrow> 0 < bits \<and> 2 ^ (bits - 1) \<le> p \<and> p < 2 ^ bits"
proof
  assume p: "1 < p" and b: "bit_length p = bits"
  have "0 < bit_length p" using p by (simp add: bit_length_pos)
  then show "0 < bits \<and> 2 ^ (bits - 1) \<le> p \<and> p < 2 ^ bits"
    using bit_length_bounds [of p] p b by auto
next
  assume "0 < bits \<and> 2 ^ (bits - 1) \<le> p \<and> p < 2 ^ bits"
  then show "bit_length p = bits" by (intro bit_length_unique) simp_all
qed

lemma safe_prime_iff:
  "is_safe_prime p \<and> bit_length p = bits \<longleftrightarrow> safe_prime_spec bits p"
proof (cases "1 < p")
  case True
  then show ?thesis
    using bit_length_iff [OF True, of bits]
    by (auto simp: is_safe_prime_def safe_prime_spec_def is_prime_iff)
next
  case False
  then have "\<not> prime_spec p" by (simp add: prime_spec_def)
  then show ?thesis by (simp add: is_safe_prime_def safe_prime_spec_def is_prime_iff)
qed

text \<open>
  C3. \<open>computeSharedSecret(g, prime, ourExponent, theirPower)\<close> fails with
  \<open>InvalidDhParameters\<close> whenever the prime is not a safe prime of the expected bit
  length or \<open>theirPower\<close> is not strictly between 1 and \<open>prime - 1\<close>; it succeeds
  only when both hold, and then with \<open>theirPower ^ ourExponent mod prime\<close>.
\<close>

theorem computeSharedSecret_checks:
  "(computeSharedSecret bits g p a b = Inl InvalidDhParameters
      \<longleftrightarrow> \<not> safe_prime_spec bits p \<or> \<not> (1 < b \<and> b < p - 1))
   \<and> ((\<exists>k. computeSharedSecret bits g p a b = Inr k)
      \<longleftrightarrow> safe_prime_spec bits p \<and> 1 < b \<and> b < p - 1)
   \<and> (safe_prime_spec bits p \<and> 1 < b \<and> b < p - 1
      \<longrightarrow> computeSharedSecret bits g p a b = Inr (b ^ a mod p))"
  using safe_prime_iff [of p bits]
  by (auto simp: computeSharedSecret_def)

lemma demo_safe: "is_safe_prime 23 \<and> bit_length 23 = 5"
  by code_simp

theorem computeSharedSecret_checks_witness:
  "safe_prime_spec 5 23 \<and> (1 :: nat) < 7 \<and> (7 :: nat) < 23 - 1
   \<and> computeSharedSecret 5 5 23 3 7 = Inr 21
   \<and> computeSharedSecret 5 5 23 3 22 = Inl InvalidDhParameters
   \<and> computeSharedSecret 5 5 21 3 7 = Inl InvalidDhParameters"
proof -
  have safe: "safe_prime_spec 5 23"
    using demo_safe safe_prime_iff [of 23 5] by simp
  have "\<not> is_safe_prime 21" by code_simp
  then have unsafe: "\<not> safe_prime_spec 5 21"
    using safe_prime_iff [of 21 5] by simp
  have pow: "(7 :: nat) ^ 3 mod 23 = 21" by simp
  show ?thesis
    using computeSharedSecret_checks [of 5 5 23 3 7] computeSharedSecret_checks [of 5 5 23 3 22]
      computeSharedSecret_checks [of 5 5 21 3 7] safe unsafe pow
    by simp
qed

end
